theory Spec2Isabelle
  imports Complex_Main "HOL-Library.Word" "HOL-Library.Product_Lexorder"
begin

section \<open>Numbers\<close>

text \<open>
  A coordinate is a Python number or a numpy float: a finite real, an infinity or NaN
  (zero has no sign here). numpy works on the corners in \<open>float32\<close>: every input number is
  converted, and every sum, difference, square and square root is rounded to the nearest
  \<open>float32\<close> value, halves to the even significand. A \<open>float32\<close> value has a significand of
  24 bits and an exponent of at least \<open>-126\<close>; a rounded magnitude of \<open>2 ^ 128\<close> or more is
  an infinity.
\<close>

datatype fnum = Fin real | PInf | NInf | NaN

definition is_nan :: "fnum \<Rightarrow> bool" where
  "is_nan v \<longleftrightarrow> v = NaN"

definition round_half_even :: "real \<Rightarrow> int" where
  "round_half_even x =
     (let f = \<lfloor>x\<rfloor> in
      if x - of_int f < 1 / 2 then f
      else if 1 / 2 < x - of_int f then f + 1
      else if even f then f else f + 1)"

definition round32 :: "real \<Rightarrow> fnum" where
  "round32 x =
     (if x = 0 then Fin 0
      else
        let e = max (- 126) \<lfloor>log 2 \<bar>x\<bar>\<rfloor>;
            u = 2 powi (e - 23);
            r = of_int (round_half_even (x / u)) * u
        in if 2 ^ 128 \<le> \<bar>r\<bar> then (if 0 < x then PInf else NInf) else Fin r)"

text \<open>\<open>np.array(v, dtype="float32")\<close> on one number.\<close>

definition to_float32 :: "fnum \<Rightarrow> fnum" where
  "to_float32 v = (case v of Fin x \<Rightarrow> round32 x | _ \<Rightarrow> v)"

fun f32_add :: "fnum \<Rightarrow> fnum \<Rightarrow> fnum" where
  "f32_add (Fin x) (Fin y) = round32 (x + y)"
| "f32_add NaN _ = NaN"
| "f32_add _ NaN = NaN"
| "f32_add PInf NInf = NaN"
| "f32_add NInf PInf = NaN"
| "f32_add PInf _ = PInf"
| "f32_add _ PInf = PInf"
| "f32_add NInf _ = NInf"
| "f32_add _ NInf = NInf"

fun f32_sub :: "fnum \<Rightarrow> fnum \<Rightarrow> fnum" where
  "f32_sub (Fin x) (Fin y) = round32 (x - y)"
| "f32_sub NaN _ = NaN"
| "f32_sub _ NaN = NaN"
| "f32_sub PInf PInf = NaN"
| "f32_sub NInf NInf = NaN"
| "f32_sub PInf _ = PInf"
| "f32_sub _ PInf = NInf"
| "f32_sub NInf _ = NInf"
| "f32_sub _ NInf = PInf"

text \<open>
  \<open>v ** 2\<close> and \<open>np.sqrt(v)\<close> on a \<open>float32\<close> value. The square of a \<open>float32\<close> scalar with
  the Python integer 2 as exponent is a \<open>float32\<close> again (the promotion rules of NumPy 2),
  and so are the sum of two such squares and its square root.
\<close>

fun f32_square :: "fnum \<Rightarrow> fnum" where
  "f32_square (Fin x) = round32 (x * x)"
| "f32_square NaN = NaN"
| "f32_square _ = PInf"

fun f32_sqrt :: "fnum \<Rightarrow> fnum" where
  "f32_sqrt (Fin x) = (if x < 0 then NaN else round32 (sqrt x))"
| "f32_sqrt PInf = PInf"
| "f32_sqrt _ = NaN"

text \<open>
  The comparison \<open>a <= b\<close> of floats: false when one side is NaN, otherwise the order of
  the extended real line, which \<open>fkey\<close> lays out.
\<close>

fun fkey :: "fnum \<Rightarrow> int \<times> real" where
  "fkey NInf = (- 1, 0)"
| "fkey (Fin x) = (0, x)"
| "fkey PInf = (1, 0)"
| "fkey NaN = (2, 0)"

definition fnum_le :: "fnum \<Rightarrow> fnum \<Rightarrow> bool" where
  "fnum_le a b \<longleftrightarrow> \<not> is_nan a \<and> \<not> is_nan b \<and> fkey a \<le> fkey b"

section \<open>Data model\<close>

text \<open>
  A corner is a pair of numbers. An image is a dense grid of BGR pixels with 8-bit
  channels, kept as the list of its rows.
\<close>

type_synonym point = "fnum \<times> fnum"

type_synonym pixel = "8 word \<times> 8 word \<times> 8 word"

type_synonym image = "pixel list list"

type_synonym matrix = "fnum list list"

text \<open>The exceptions the code can raise: numpy's AxisError, Python's ValueError and
  OverflowError, and OpenCV's \<open>cv2.error\<close> (a failed assertion inside a library call).\<close>

datatype error = AxisError | ValueError | OverflowError | CvError

definition bind_err :: "error + 'a \<Rightarrow> ('a \<Rightarrow> error + 'b) \<Rightarrow> error + 'b" where
  "bind_err m f = (case m of Inl e \<Rightarrow> Inl e | Inr x \<Rightarrow> f x)"

definition img_height :: "image \<Rightarrow> nat" where
  "img_height img = length img"

definition img_width :: "image \<Rightarrow> nat" where
  "img_width img = (case img of [] \<Rightarrow> 0 | row # _ \<Rightarrow> length row)"

section \<open>Corner ordering (scanner.py, order_points)\<close>

text \<open>
  \<open>np.argmin\<close> on floats scans the array from the left. It moves to a later index only on
  a value \<open>x\<close> for which \<open>x >= mp\<close> is false, \<open>mp\<close> being the least value so far, and it
  stops at the first NaN, which it returns. \<open>np.argmax\<close> is the same with \<open>x <= mp\<close>. On an
  empty array both raise ValueError.
\<close>

fun argmin_loop :: "fnum list \<Rightarrow> nat \<Rightarrow> fnum \<Rightarrow> nat \<Rightarrow> nat" where
  "argmin_loop [] i mp min_ind = min_ind"
| "argmin_loop (x # xs) i mp min_ind =
     (if \<not> fnum_le mp x then (if is_nan x then i else argmin_loop xs (Suc i) x i)
      else argmin_loop xs (Suc i) mp min_ind)"

fun argmax_loop :: "fnum list \<Rightarrow> nat \<Rightarrow> fnum \<Rightarrow> nat \<Rightarrow> nat" where
  "argmax_loop [] i mp max_ind = max_ind"
| "argmax_loop (x # xs) i mp max_ind =
     (if \<not> fnum_le x mp then (if is_nan x then i else argmax_loop xs (Suc i) x i)
      else argmax_loop xs (Suc i) mp max_ind)"

definition argmin :: "fnum list \<Rightarrow> error + nat" where
  "argmin xs =
     (case xs of
        [] \<Rightarrow> Inl ValueError
      | x # rest \<Rightarrow> Inr (if is_nan x then 0 else argmin_loop rest 1 x 0))"

definition argmax :: "fnum list \<Rightarrow> error + nat" where
  "argmax xs =
     (case xs of
        [] \<Rightarrow> Inl ValueError
      | x # rest \<Rightarrow> Inr (if is_nan x then 0 else argmax_loop rest 1 x 0))"

text \<open>
  \<open>pts.sum(axis=1)\<close> is the \<open>float32\<close> sum \<open>x + y\<close> of each row; \<open>np.diff(pts, axis=1)\<close> is
  the \<open>float32\<close> difference \<open>y - x\<close>.
\<close>

definition psum :: "point \<Rightarrow> fnum" where
  "psum p = f32_add (fst p) (snd p)"

definition pdiff :: "point \<Rightarrow> fnum" where
  "pdiff p = f32_sub (snd p) (fst p)"

definition point32 :: "point \<Rightarrow> point" where
  "point32 p = (to_float32 (fst p), to_float32 (snd p))"

text \<open>
  Line 17 converts the corners to \<open>float32\<close>. The result \<open>rect\<close> always has four rows,
  whatever the number of input points. On an empty list the array has one dimension
  only and \<open>pts.sum(axis=1)\<close> raises AxisError.
\<close>

definition order_points :: "point list \<Rightarrow> error + point list" where
  "order_points pts =
     (if pts = [] then Inl AxisError
      else
        let pts = map point32 pts;
            s = map psum pts in
        bind_err (argmin s) (\<lambda>i0.
        bind_err (argmax s) (\<lambda>i2.
        let diff = map pdiff pts in
        bind_err (argmin diff) (\<lambda>i1.
        bind_err (argmax diff) (\<lambda>i3.
        Inr [pts ! i0, pts ! i1, pts ! i2, pts ! i3])))))"

section \<open>Rectification (scanner.py, four_point_transform)\<close>

text \<open>
  The OpenCV calls whose results are floating-point resampling are taken through an
  interface: the homography solver, the colour of one resampled pixel, and the colour of
  one pixel after the LAB conversion, CLAHE on the lightness channel and the conversion
  back. The shapes of the results, and the arguments the library refuses, are fixed by the
  definitions below; every theorem holds for every instance of the interface. The solver
  does not raise on a singular system (it returns a matrix all the same). Memory and the
  library's upper limits on image sizes are outside the model.
\<close>

record cv2 =
  getPerspectiveTransform :: "point list \<Rightarrow> point list \<Rightarrow> matrix"
  warp_sample :: "image \<Rightarrow> matrix \<Rightarrow> nat \<Rightarrow> nat \<Rightarrow> pixel"
  clahe_sample :: "image \<Rightarrow> nat \<Rightarrow> nat \<Rightarrow> pixel"

text \<open>
  \<open>cv2.warpPerspective(image, M, (w, h))\<close> asserts that the source has pixels and returns
  an image of \<open>h\<close> rows and \<open>w\<close> columns (of the source's size when the given size is empty).
\<close>

definition warpPerspective :: "cv2 \<Rightarrow> image \<Rightarrow> matrix \<Rightarrow> int \<times> int \<Rightarrow> error + image" where
  "warpPerspective L src M dsize =
     (if img_height src = 0 \<or> img_width src = 0 then Inl CvError
      else
        let w = (if fst dsize \<le> 0 \<or> snd dsize \<le> 0 then img_width src else nat (fst dsize));
            h = (if fst dsize \<le> 0 \<or> snd dsize \<le> 0 then img_height src else nat (snd dsize))
        in Inr (map (\<lambda>y. map (\<lambda>x. warp_sample L src M x y) [0..<w]) [0..<h]))"

text \<open>
  Python's \<open>int()\<close> of a float truncates towards zero; it raises OverflowError on an
  infinity and ValueError on NaN.
\<close>

definition py_trunc :: "real \<Rightarrow> int" where
  "py_trunc x = (if 0 \<le> x then \<lfloor>x\<rfloor> else \<lceil>x\<rceil>)"

definition py_int :: "fnum \<Rightarrow> error + int" where
  "py_int v =
     (case v of
        Fin x \<Rightarrow> Inr (py_trunc x)
      | NaN \<Rightarrow> Inl ValueError
      | _ \<Rightarrow> Inl OverflowError)"

text \<open>\<open>np.array(..., dtype="float32")\<close> on a row of two Python integers.\<close>

definition int_point32 :: "int \<times> int \<Rightarrow> point" where
  "int_point32 p = point32 (Fin (of_int (fst p)), Fin (of_int (snd p)))"

definition four_point_transform :: "cv2 \<Rightarrow> image \<Rightarrow> point list \<Rightarrow> error + image" where
  "four_point_transform L img pts =
     bind_err (order_points pts) (\<lambda>rect.
       case rect of
         [tl_pt, tr_pt, br_pt, bl_pt] \<Rightarrow>
           let widthA = f32_sqrt (f32_add (f32_square (f32_sub (fst br_pt) (fst bl_pt)))
                                          (f32_square (f32_sub (snd br_pt) (snd bl_pt))));
               widthB = f32_sqrt (f32_add (f32_square (f32_sub (fst tr_pt) (fst tl_pt)))
                                          (f32_square (f32_sub (snd tr_pt) (snd tl_pt))))
           in
           bind_err (py_int widthA) (\<lambda>intA.
           bind_err (py_int widthB) (\<lambda>intB.
           let maxWidth = max intA intB;
               heightA = f32_sqrt (f32_add (f32_square (f32_sub (fst tr_pt) (fst br_pt)))
                                           (f32_square (f32_sub (snd tr_pt) (snd br_pt))));
               heightB = f32_sqrt (f32_add (f32_square (f32_sub (fst tl_pt) (fst bl_pt)))
                                           (f32_square (f32_sub (snd tl_pt) (snd bl_pt))))
           in
           bind_err (py_int heightA) (\<lambda>intC.
           bind_err (py_int heightB) (\<lambda>intD.
           let maxHeight = max intC intD;
               maxWidth = max maxWidth 100;
               maxHeight = max maxHeight 100;
               dst = map int_point32
                       [(0, 0),
                        (maxWidth - 1, 0),
                        (maxWidth - 1, maxHeight - 1),
                        (0, maxHeight - 1)];
               M = getPerspectiveTransform L rect dst
           in warpPerspective L img M (maxWidth, maxHeight)))))
       | _ \<Rightarrow> Inl ValueError)"

section \<open>Enhancement (scanner.py, enhance_document)\<close>

text \<open>
  Lines 86 to 96: conversion to LAB, CLAHE on the lightness channel, conversion back.
  \<open>cv2.cvtColor\<close> asserts that its input has pixels; the result has the input's shape.
\<close>

definition clahe_stage :: "cv2 \<Rightarrow> image \<Rightarrow> error + image" where
  "clahe_stage L img =
     (if img_height img = 0 \<or> img_width img = 0 then Inl CvError
      else Inr (map (\<lambda>y. map (\<lambda>x. clahe_sample L img x y) [0..<img_width img])
                  [0..<img_height img]))"

text \<open>
  \<open>cv2.convertScaleAbs(src, alpha, beta)\<close> computes, for every channel value,
  \<open>saturate_cast<uchar>(|src * alpha + beta|)\<close>: the absolute value, rounded to the nearest
  integer (halves to the even one) and cut off at 255.
\<close>

definition cvRound :: "real \<Rightarrow> int" where
  "cvRound x =
     (let f = \<lfloor>x\<rfloor> in
      if x - of_int f < 1 / 2 then f
      else if 1 / 2 < x - of_int f then f + 1
      else if even f then f else f + 1)"

definition saturate_uchar :: "int \<Rightarrow> 8 word" where
  "saturate_uchar i = word_of_int (max 0 (min 255 i))"

definition scale_abs :: "real \<Rightarrow> real \<Rightarrow> 8 word \<Rightarrow> 8 word" where
  "scale_abs alpha beta v = saturate_uchar (cvRound \<bar>real (unat v) * alpha + beta\<bar>)"

definition map_channels :: "(8 word \<Rightarrow> 8 word) \<Rightarrow> image \<Rightarrow> image" where
  "map_channels f img = map (map (\<lambda>(b, g, r). (f b, f g, f r))) img"

definition convertScaleAbs :: "image \<Rightarrow> real \<Rightarrow> real \<Rightarrow> image" where
  "convertScaleAbs src alpha beta = map_channels (scale_abs alpha beta) src"

definition enhance_document :: "cv2 \<Rightarrow> image \<Rightarrow> int \<Rightarrow> int \<Rightarrow> error + image" where
  "enhance_document L img brightness contrast =
     bind_err (clahe_stage L img) (\<lambda>enhanced.
       if brightness \<noteq> 0 \<or> contrast \<noteq> 0 then
         let beta = real_of_int brightness;
             alpha = 1 + real_of_int contrast / 100
         in Inr (convertScaleAbs enhanced alpha beta)
       else Inr enhanced)"

section \<open>Border (scanner.py, add_white_border)\<close>

text \<open>
  \<open>cv2.copyMakeBorder\<close> with \<open>BORDER_CONSTANT\<close>: the library asserts that the four border
  widths are not negative, then surrounds the source with pixels of the given colour.
\<close>

definition copyMakeBorder ::
  "image \<Rightarrow> int \<Rightarrow> int \<Rightarrow> int \<Rightarrow> int \<Rightarrow> pixel \<Rightarrow> error + image" where
  "copyMakeBorder src top_w bottom_w left_w right_w val =
     (if top_w < 0 \<or> bottom_w < 0 \<or> left_w < 0 \<or> right_w < 0 then Inl CvError
      else
        let blank = replicate (nat left_w + img_width src + nat right_w) val
        in Inr (replicate (nat top_w) blank
                @ map (\<lambda>row. replicate (nat left_w) val @ row @ replicate (nat right_w) val) src
                @ replicate (nat bottom_w) blank))"

definition add_white_border :: "image \<Rightarrow> int \<Rightarrow> error + image" where
  "add_white_border img padding =
     copyMakeBorder img padding padding padding padding (255, 255, 255)"

section \<open>Pipeline (scanner.py, process_document_from_array)\<close>

text \<open>The calls leave brightness, contrast and padding at their defaults 0, 0 and 20.\<close>

definition process_document_from_array ::
  "cv2 \<Rightarrow> image \<Rightarrow> point list \<Rightarrow> bool \<Rightarrow> bool \<Rightarrow> error + image" where
  "process_document_from_array L image_array corners enhance add_border =
     bind_err (four_point_transform L image_array corners) (\<lambda>warped.
     bind_err (if enhance then enhance_document L warped 0 0 else Inr warped) (\<lambda>warped.
     if add_border then add_white_border warped 20 else Inr warped))"

section \<open>The formulas of the specification\<close>

text \<open>
  The specification's Euclidean distance of two corners, in the \<open>float32\<close> arithmetic of
  the corners.
\<close>

definition euclidean :: "point \<Rightarrow> point \<Rightarrow> fnum" where
  "euclidean p q =
     f32_sqrt (f32_add (f32_square (f32_sub (fst p) (fst q)))
                       (f32_square (f32_sub (snd p) (snd q))))"

text \<open>
  The specification's formula for the global adjustment of one channel value:
  \<open>clamp(alpha * v + beta, 0, 255)\<close>.
\<close>

definition affine_clamp :: "real \<Rightarrow> real \<Rightarrow> real \<Rightarrow> real" where
  "affine_clamp alpha beta v = max 0 (min 255 (alpha * v + beta))"

section \<open>Notions for the statements\<close>

definition is_fin :: "fnum \<Rightarrow> bool" where
  "is_fin v = (case v of Fin x \<Rightarrow> True | _ \<Rightarrow> False)"

text \<open>
  Index \<open>i\<close> is the first position of the least (greatest) element of a list of floats,
  by the comparison of floats.
\<close>

definition first_least :: "fnum list \<Rightarrow> nat \<Rightarrow> bool" where
  "first_least xs i \<longleftrightarrow>
     i < length xs \<and> (\<forall>v \<in> set xs. fnum_le (xs ! i) v) \<and>
     (\<forall>v \<in> set (take i xs). \<not> fnum_le v (xs ! i))"

definition first_greatest :: "fnum list \<Rightarrow> nat \<Rightarrow> bool" where
  "first_greatest xs i \<longleftrightarrow>
     i < length xs \<and> (\<forall>v \<in> set xs. fnum_le v (xs ! i)) \<and>
     (\<forall>v \<in> set (take i xs). \<not> fnum_le (xs ! i) v)"

text \<open>No corner has a NaN as its \<open>float32\<close> sum or difference.\<close>

definition comparable :: "point list \<Rightarrow> bool" where
  "comparable pts \<longleftrightarrow>
     (\<forall>p \<in> set pts. \<not> is_nan (psum (point32 p)) \<and> \<not> is_nan (pdiff (point32 p)))"

text \<open>
  Among the ordered corners, the first one (in the order top-left, top-right,
  bottom-right, bottom-left) that reaches the extreme of a role is the corner of that
  role, or equal to it.
\<close>

definition keeps_roles :: "point list \<Rightarrow> bool" where
  "keeps_roles rect =
     (case rect of
        [tl_pt, tr_pt, br_pt, bl_pt] \<Rightarrow>
          (pdiff tl_pt = pdiff tr_pt \<longrightarrow> tl_pt = tr_pt) \<and>
          (psum tl_pt = psum br_pt \<longrightarrow> tl_pt = br_pt) \<and>
          (psum tl_pt \<noteq> psum br_pt \<and> psum tr_pt = psum br_pt \<longrightarrow> tr_pt = br_pt) \<and>
          (pdiff tl_pt = pdiff bl_pt \<longrightarrow> tl_pt = bl_pt) \<and>
          (pdiff tl_pt \<noteq> pdiff bl_pt \<and> pdiff tr_pt = pdiff bl_pt \<longrightarrow> tr_pt = bl_pt) \<and>
          (pdiff tl_pt \<noteq> pdiff bl_pt \<and> pdiff tr_pt \<noteq> pdiff bl_pt \<and>
             pdiff br_pt = pdiff bl_pt \<longrightarrow> br_pt = bl_pt)
      | _ \<Rightarrow> False)"

text \<open>The four side lengths of the ordered corners are finite.\<close>

definition sides_finite :: "point list \<Rightarrow> bool" where
  "sides_finite rect =
     (case rect of
        [tl_pt, tr_pt, br_pt, bl_pt] \<Rightarrow>
          is_fin (euclidean br_pt bl_pt) \<and> is_fin (euclidean tr_pt tl_pt) \<and>
          is_fin (euclidean tr_pt br_pt) \<and> is_fin (euclidean tl_pt bl_pt)
      | _ \<Rightarrow> False)"

text \<open>
  For the proofs: the scans of \<open>argmin\<close> and \<open>argmax\<close> on a list without NaN, as scans
  over the keys, and the first position of the least (greatest) key.
\<close>

fun kmin_loop :: "'a::linorder list \<Rightarrow> nat \<Rightarrow> 'a \<Rightarrow> nat \<Rightarrow> nat" where
  "kmin_loop [] i mv mi = mi"
| "kmin_loop (x # xs) i mv mi =
     (if x < mv then kmin_loop xs (Suc i) x i else kmin_loop xs (Suc i) mv mi)"

fun kmax_loop :: "'a::linorder list \<Rightarrow> nat \<Rightarrow> 'a \<Rightarrow> nat \<Rightarrow> nat" where
  "kmax_loop [] i mv mi = mi"
| "kmax_loop (x # xs) i mv mi =
     (if mv < x then kmax_loop xs (Suc i) x i else kmax_loop xs (Suc i) mv mi)"

definition first_min :: "'a::linorder list \<Rightarrow> nat \<Rightarrow> bool" where
  "first_min xs i \<longleftrightarrow>
     i < length xs \<and> (\<forall>v \<in> set xs. xs ! i \<le> v) \<and> (\<forall>v \<in> set (take i xs). xs ! i < v)"

definition first_max :: "'a::linorder list \<Rightarrow> nat \<Rightarrow> bool" where
  "first_max xs i \<longleftrightarrow>
     i < length xs \<and> (\<forall>v \<in> set xs. v \<le> xs ! i) \<and> (\<forall>v \<in> set (take i xs). v < xs ! i)"

section \<open>The request handler (server.py, scan_document)\<close>

text \<open>
  The handler of \<open>/scan\<close> up to the call of the scanner. The request body is absent or
  empty (\<open>None\<close>), or a JSON object whose fields have the expected types; an absent
  \<open>filename\<close> or \<open>corners\<close> is the empty string or list, which Python tests as false like
  \<open>None\<close>, and an absent flag is its default \<open>True\<close>. The folder of uploads is a map from file
  names to decoded images. Of a successful answer the model keeps the scanned image; an
  exception of the scanner becomes the answer 500.
\<close>

record scan_request =
  req_filename :: string
  req_corners :: "point list"
  req_enhance :: bool
  req_addBorder :: bool

datatype response = Http400 string | Http500 error | Http200 image

definition scan_document ::
  "cv2 \<Rightarrow> (string \<Rightarrow> image option) \<Rightarrow> scan_request option \<Rightarrow> response" where
  "scan_document L imread request_json =
     (case request_json of
        None \<Rightarrow> Http400 ''No data provided''
      | Some data \<Rightarrow>
          if req_filename data = [] \<or> req_corners data = [] then
            Http400 ''Missing filename or corners''
          else if length (req_corners data) \<noteq> 4 then
            Http400 ''Exactly 4 corners required''
          else
            (case imread (req_filename data) of
               None \<Rightarrow> Http400 ''Could not read image''
             | Some img \<Rightarrow>
                 (case process_document_from_array L img (req_corners data)
                         (req_enhance data) (req_addBorder data) of
                    Inl e \<Rightarrow> Http500 e
                  | Inr scanned \<Rightarrow> Http200 scanned)))"

section \<open>Concrete inputs\<close>

text \<open>
  An instance of the library interface, to run the model on concrete inputs: every
  resampled pixel is black and the equalisation leaves the pixel values as they are.
\<close>

definition cv2_black :: cv2 where
  "cv2_black =
     \<lparr> getPerspectiveTransform = (\<lambda>src dst. []),
       warp_sample = (\<lambda>src M x y. (0, 0, 0)),
       clahe_sample = (\<lambda>src x y. src ! y ! x) \<rparr>"

definition gray_image :: "nat \<Rightarrow> nat \<Rightarrow> 8 word \<Rightarrow> image" where
  "gray_image h w v = replicate h (replicate w (v, v, v))"

text \<open>A corner with the given finite coordinates.\<close>

definition pt :: "real \<Rightarrow> real \<Rightarrow> point" where
  "pt x y = (Fin x, Fin y)"

section \<open>Rounding to float32\<close>

lemma round_half_even_of_int [simp]: "round_half_even (of_int k) = k"
  by (simp add: round_half_even_def)

lemma round_half_even_numeral [simp]: "round_half_even (numeral k) = numeral k"
  using round_half_even_of_int [of "numeral k"] by simp

lemma round_half_even_eqI:
  assumes "of_int m - 1 / 2 < x" "x < of_int m + 1 / 2"
  shows "round_half_even x = m"
proof -
  consider "\<lfloor>x\<rfloor> = m" | "\<lfloor>x\<rfloor> = m - 1" using assms by linarith
  then show ?thesis
  proof cases
    case 1
    with assms show ?thesis by (simp add: round_half_even_def)
  next
    case 2
    with assms show ?thesis by (simp add: round_half_even_def)
  qed
qed

lemma round_half_even_le:
  assumes "x \<le> of_int n"
  shows "round_half_even x \<le> n"
proof -
  have f: "\<lfloor>x\<rfloor> \<le> n" using assms by linarith
  show ?thesis
  proof (cases "\<lfloor>x\<rfloor> = n")
    case True
    then have "x = of_int n" using assms by linarith
    then show ?thesis by simp
  next
    case False
    with f have "\<lfloor>x\<rfloor> + 1 \<le> n" by simp
    then show ?thesis by (auto simp: round_half_even_def Let_def)
  qed
qed

lemma round_half_even_ge:
  assumes "of_int n \<le> x"
  shows "n \<le> round_half_even x"
proof -
  have "n \<le> \<lfloor>x\<rfloor>" using assms by (simp add: le_floor_iff)
  then show ?thesis by (auto simp: round_half_even_def Let_def)
qed

lemma powr_powi: "2 powr (real_of_int k) = (2::real) powi k"
  by (simp add: powr_real_of_int power_int_def power_one_over [symmetric] inverse_eq_divide)

lemma floor_log2_eqI:
  assumes "2 powi k \<le> \<bar>x\<bar>" "\<bar>x\<bar> < 2 powi (k + 1)"
  shows "\<lfloor>log 2 \<bar>x\<bar>\<rfloor> = k"
proof -
  have pos: "0 < \<bar>x\<bar>" using assms(1) by (smt (verit) zero_less_power_int)
  have "2 powr (real_of_int k) \<le> \<bar>x\<bar> \<and> \<bar>x\<bar> < 2 powr (real_of_int (k + 1))"
    using assms by (simp only: powr_powi)
  then show ?thesis using floor_log_eq_powr_iff [of "\<bar>x\<bar>" 2 k] pos by simp
qed

lemma floor_log2_bounds:
  assumes "x \<noteq> 0"
  shows "2 powi \<lfloor>log 2 \<bar>x\<bar>\<rfloor> \<le> \<bar>x\<bar>" "\<bar>x\<bar> < 2 powi (\<lfloor>log 2 \<bar>x\<bar>\<rfloor> + 1)"
proof -
  from assms have pos: "0 < \<bar>x\<bar>" by simp
  have "2 powr (real_of_int \<lfloor>log 2 \<bar>x\<bar>\<rfloor>) \<le> \<bar>x\<bar> \<and> \<bar>x\<bar> < 2 powr (real_of_int (\<lfloor>log 2 \<bar>x\<bar>\<rfloor> + 1))"
    using floor_log_eq_powr_iff [of "\<bar>x\<bar>" 2 "\<lfloor>log 2 \<bar>x\<bar>\<rfloor>"] pos by simp
  then show "2 powi \<lfloor>log 2 \<bar>x\<bar>\<rfloor> \<le> \<bar>x\<bar>" "\<bar>x\<bar> < 2 powi (\<lfloor>log 2 \<bar>x\<bar>\<rfloor> + 1)"
    by (simp_all only: powr_powi)
qed

lemma round32_eval:
  assumes "2 powi e \<le> \<bar>x\<bar>" "\<bar>x\<bar> < 2 powi (e + 1)" "- 126 \<le> e"
    and "round_half_even (x / 2 powi (e - 23)) = m"
    and "\<bar>of_int m * 2 powi (e - 23)\<bar> < (2::real) ^ 128"
  shows "round32 x = Fin (of_int m * 2 powi (e - 23))"
proof -
  have "x \<noteq> 0" using assms(1) by (smt (verit) zero_less_power_int)
  moreover have "\<lfloor>log 2 \<bar>x\<bar>\<rfloor> = e" using assms(1,2) by (rule floor_log2_eqI)
  ultimately show ?thesis using assms(3,4,5) by (simp add: round32_def Let_def max_def)
qed

lemma round32_not_nan [simp]: "round32 x \<noteq> NaN"
  by (simp add: round32_def Let_def)

lemma two_powi_nonneg: "0 \<le> k \<Longrightarrow> (2::real) powi k = of_int (2 ^ nat k)"
  by (simp add: power_int_def)

text \<open>A multiple of the unit of its own binade, or of a finer one, is not changed.\<close>

lemma round32_multiple:
  assumes m: "m \<noteq> 0" and lo: "- 126 \<le> e"
    and small: "\<bar>real_of_int m * 2 powi (e - 23)\<bar> < 2 powi (e + 1)"
    and fin: "\<bar>real_of_int m * 2 powi (e - 23)\<bar> < 2 ^ 128"
  shows "round32 (of_int m * 2 powi (e - 23)) = Fin (of_int m * 2 powi (e - 23))"
proof -
  let ?r = "real_of_int m * 2 powi (e - 23)"
  have r0: "?r \<noteq> 0" using m by simp
  define e2 where "e2 = max (- 126) \<lfloor>log 2 \<bar>?r\<bar>\<rfloor>"
  have "\<lfloor>log 2 \<bar>?r\<bar>\<rfloor> \<le> e"
  proof (rule ccontr)
    assume "\<not> \<lfloor>log 2 \<bar>?r\<bar>\<rfloor> \<le> e"
    then have "e + 1 \<le> \<lfloor>log 2 \<bar>?r\<bar>\<rfloor>" by simp
    then have "(2::real) powi (e + 1) \<le> 2 powi \<lfloor>log 2 \<bar>?r\<bar>\<rfloor>"
      by (intro power_int_increasing) simp_all
    also have "\<dots> \<le> \<bar>?r\<bar>" using floor_log2_bounds(1) [OF r0] .
    finally show False using small by simp
  qed
  with lo have e2: "e2 \<le> e" by (simp add: e2_def)
  have "?r / 2 powi (e2 - 23) = of_int m * 2 powi (e - e2)"
    by (simp add: power_int_diff)
  also have "\<dots> = of_int (m * 2 ^ nat (e - e2))"
    using e2 by (simp add: two_powi_nonneg)
  finally have q: "?r / 2 powi (e2 - 23) = of_int (m * 2 ^ nat (e - e2))" .
  have restore: "of_int (m * 2 ^ nat (e - e2)) * 2 powi (e2 - 23) = ?r"
    using q by (auto simp: field_simps)
  have same: "of_int (round_half_even (?r / 2 powi (e2 - 23))) * 2 powi (e2 - 23) = ?r"
    by (simp only: q round_half_even_of_int restore)
  have "round32 ?r =
     (if 2 ^ 128 \<le> \<bar>real_of_int (round_half_even (?r / 2 powi (e2 - 23))) * 2 powi (e2 - 23)\<bar>
      then (if 0 < ?r then PInf else NInf)
      else Fin (of_int (round_half_even (?r / 2 powi (e2 - 23))) * 2 powi (e2 - 23)))"
    unfolding round32_def Let_def e2_def by (simp only: r0 if_False)
  also have "\<dots> = Fin ?r" unfolding same using fin by simp
  finally show ?thesis .
qed

lemma round32_of_int:
  assumes "\<bar>n\<bar> \<le> 2 ^ 24"
  shows "round32 (of_int n) = Fin (of_int n)"
proof (cases "\<bar>n\<bar> = 2 ^ 24")
  case True
  then consider "n = 2 ^ 24" | "n = - (2 ^ 24)" by linarith
  then show ?thesis
  proof cases
    case 1
    have "round32 (of_int (2 ^ 23) * 2 powi (24 - 23)) = Fin (of_int (2 ^ 23) * 2 powi (24 - 23))"
      by (rule round32_multiple) simp_all
    with 1 show ?thesis by simp
  next
    case 2
    have "round32 (of_int (- (2 ^ 23)) * 2 powi (24 - 23)) =
            Fin (of_int (- (2 ^ 23)) * 2 powi (24 - 23))"
      by (rule round32_multiple) simp_all
    with 2 show ?thesis by simp
  qed
next
  case False
  with assms have lt: "\<bar>n\<bar> < 2 ^ 24" by simp
  show ?thesis
  proof (cases "n = 0")
    case True
    then show ?thesis by (simp add: round32_def)
  next
    case False
    have "round32 (of_int (n * 2 ^ 0) * 2 powi (23 - 23)) = Fin (of_int (n * 2 ^ 0) * 2 powi (23 - 23))"
    proof (rule round32_multiple)
      show "n * 2 ^ 0 \<noteq> 0" using False by simp
      show "- 126 \<le> (23::int)" by simp
      have "\<bar>real_of_int n\<bar> < 2 ^ 24" using lt
        by (metis of_int_abs of_int_less_numeral_power_cancel_iff)
      then show "\<bar>real_of_int (n * 2 ^ 0) * 2 powi (23 - 23)\<bar> < 2 powi (23 + 1)" by simp
      then show "\<bar>real_of_int (n * 2 ^ 0) * 2 powi (23 - 23)\<bar> < 2 ^ 128" by simp
    qed
    then show ?thesis by simp
  qed
qed

lemma round32_idem:
  assumes "round32 x = Fin r"
  shows "round32 r = Fin r"
proof (cases "r = 0")
  case True
  then show ?thesis by (simp add: round32_def)
next
  case r0: False
  with assms have x0: "x \<noteq> 0" by (auto simp: round32_def)
  define e where "e = max (- 126) \<lfloor>log 2 \<bar>x\<bar>\<rfloor>"
  define m where "m = round_half_even (x / 2 powi (e - 23))"
  have lo: "- 126 \<le> e" by (simp add: e_def)
  from assms x0 have r: "r = of_int m * 2 powi (e - 23)" and fin: "\<bar>r\<bar> < 2 ^ 128"
    by (auto simp: round32_def Let_def e_def m_def split: if_splits)
  from r r0 have m0: "m \<noteq> 0" by auto
  have "\<lfloor>log 2 \<bar>x\<bar>\<rfloor> + 1 \<le> e + 1" by (simp add: e_def)
  then have "(2::real) powi (\<lfloor>log 2 \<bar>x\<bar>\<rfloor> + 1) \<le> 2 powi (e + 1)"
    by (intro power_int_increasing) simp_all
  with floor_log2_bounds(2) [OF x0] have xb: "\<bar>x\<bar> < 2 powi (e + 1)" by simp
  have u: "(0::real) < 2 powi (e - 23)" by simp
  have split: "(2::real) powi (e + 1) = 2 ^ 24 * 2 powi (e - 23)"
  proof -
    have "e + 1 = 24 + (e - 23)" by simp
    then have "(2::real) powi (e + 1) = 2 powi (24 + (e - 23))" by (simp only:)
    also have "\<dots> = 2 powi 24 * 2 powi (e - 23)" by (rule power_int_add) simp
    finally show ?thesis by simp
  qed
  with xb have "\<bar>x\<bar> / 2 powi (e - 23) < 2 ^ 24" using u by (simp add: field_simps)
  then have q: "\<bar>x / 2 powi (e - 23)\<bar> < 2 ^ 24" using u by (simp add: abs_divide)
  define y where "y = x / 2 powi (e - 23)"
  from q have "\<bar>y\<bar> < 2 ^ 24" by (simp only: y_def)
  then have "y \<le> of_int (2 ^ 24)" "of_int (- (2 ^ 24)) \<le> y" by simp_all
  then have yb: "x / 2 powi (e - 23) \<le> of_int (2 ^ 24)"
    "of_int (- (2 ^ 24)) \<le> x / 2 powi (e - 23)"
    by (simp_all only: y_def)
  have "m \<le> 2 ^ 24" unfolding m_def using yb(1) by (rule round_half_even_le)
  moreover have "- (2 ^ 24) \<le> m" unfolding m_def using yb(2) by (rule round_half_even_ge)
  ultimately have mb: "\<bar>m\<bar> \<le> 2 ^ 24" by simp
  show ?thesis
  proof (cases "\<bar>m\<bar> = 2 ^ 24")
    case False
    with mb have "\<bar>m\<bar> < 2 ^ 24" by simp
    then have "\<bar>real_of_int m\<bar> < 2 ^ 24"
      by (metis of_int_abs of_int_less_numeral_power_cancel_iff)
    then have "\<bar>real_of_int m\<bar> * 2 powi (e - 23) < 2 ^ 24 * 2 powi (e - 23)"
      using u by simp
    then have "\<bar>real_of_int m * 2 powi (e - 23)\<bar> < 2 powi (e + 1)"
      using split by (simp add: abs_mult)
    from round32_multiple [OF m0 lo this] fin show ?thesis by (simp add: r)
  next
    case True
    then consider "m = 2 ^ 24" | "m = - (2 ^ 24)" by linarith
    then obtain k :: int where k: "m = 2 * k" "\<bar>k\<bar> = 2 ^ 23" "k \<noteq> 0"
      by cases auto
    have r': "r = of_int k * 2 powi ((e + 1) - 23)"
    proof -
      have "(e + 1) - 23 = 1 + (e - 23)" by simp
      then have "(2::real) powi ((e + 1) - 23) = 2 powi (1 + (e - 23))" by (simp only:)
      also have "\<dots> = 2 powi 1 * 2 powi (e - 23)" by (rule power_int_add) simp
      also have "\<dots> = 2 * 2 powi (e - 23)" by simp
      finally show ?thesis by (simp add: r k(1))
    qed
    have "\<bar>real_of_int k\<bar> = 2 ^ 23" using k(2)
      by (metis of_int_abs of_int_numeral of_int_power)
    then have "\<bar>r\<bar> = 2 ^ 23 * 2 powi ((e + 1) - 23)" by (simp add: r' abs_mult)
    also have "\<dots> = 2 powi 23 * 2 powi ((e + 1) - 23)" by simp
    also have "\<dots> = 2 powi (23 + ((e + 1) - 23))" by (rule power_int_add [symmetric]) simp
    also have "23 + ((e + 1) - 23) = e + 1" by simp
    finally have "\<bar>r\<bar> = 2 powi (e + 1)" .
    moreover have "(2::real) powi (e + 1) < 2 powi ((e + 1) + 1)"
      by (intro power_int_strict_increasing) simp_all
    ultimately have small: "\<bar>real_of_int k * 2 powi ((e + 1) - 23)\<bar> < 2 powi ((e + 1) + 1)"
      by (simp add: r')
    have "- 126 \<le> e + 1" using lo by simp
    from round32_multiple [OF k(3) this small] fin show ?thesis by (simp add: r')
  qed
qed

lemma round32_zero [simp]: "round32 0 = Fin 0"
  by (simp add: round32_def)

lemma round32_one [simp]: "round32 1 = Fin 1"
  using round32_of_int [of 1] by simp

lemma round32_numeral [simp]:
  "(numeral k :: int) \<le> 16777216 \<Longrightarrow> round32 (numeral k) = Fin (numeral k)"
  using round32_of_int [of "numeral k"] by simp

lemma round32_neg_numeral [simp]:
  "(numeral k :: int) \<le> 16777216 \<Longrightarrow> round32 (- numeral k) = Fin (- numeral k)"
  using round32_of_int [of "- numeral k"] by simp

lemma to_float32_idem [simp]: "to_float32 (to_float32 v) = to_float32 v"
proof (cases v)
  case (Fin x)
  then show ?thesis
    by (cases "round32 x") (simp_all add: to_float32_def round32_idem)
qed (simp_all add: to_float32_def)

lemma point32_idem [simp]: "point32 (point32 p) = point32 p"
  by (simp add: point32_def)

section \<open>The index functions\<close>

lemma first_min_nth:
  "first_min xs i \<longleftrightarrow>
     i < length xs \<and> (\<forall>j < length xs. xs ! i \<le> xs ! j) \<and> (\<forall>j < i. xs ! i < xs ! j)"
proof (cases "i < length xs")
  case True
  then have "(\<forall>v \<in> set (take i xs). xs ! i < v) \<longleftrightarrow> (\<forall>j < i. xs ! i < xs ! j)"
    by (auto simp: all_set_conv_all_nth)
  then show ?thesis by (simp add: first_min_def all_set_conv_all_nth)
next
  case False
  then show ?thesis by (simp add: first_min_def)
qed

lemma first_max_nth:
  "first_max xs i \<longleftrightarrow>
     i < length xs \<and> (\<forall>j < length xs. xs ! j \<le> xs ! i) \<and> (\<forall>j < i. xs ! j < xs ! i)"
proof (cases "i < length xs")
  case True
  then have "(\<forall>v \<in> set (take i xs). v < xs ! i) \<longleftrightarrow> (\<forall>j < i. xs ! j < xs ! i)"
    by (auto simp: all_set_conv_all_nth)
  then show ?thesis by (simp add: first_max_def all_set_conv_all_nth)
next
  case False
  then show ?thesis by (simp add: first_max_def)
qed

lemma kmin_loop_first_min:
  "first_min pre mi \<Longrightarrow> first_min (pre @ xs) (kmin_loop xs (length pre) (pre ! mi) mi)"
proof (induction xs arbitrary: pre mi)
  case Nil
  then show ?case by simp
next
  case (Cons x xs)
  from Cons.prems have mi: "mi < length pre" by (simp add: first_min_nth)
  show ?case
  proof (cases "x < pre ! mi")
    case True
    have "first_min (pre @ [x]) (length pre)"
      unfolding first_min_nth
    proof (intro conjI allI impI)
      show "length pre < length (pre @ [x])" by simp
    next
      fix j assume "j < length (pre @ [x])"
      then consider "j < length pre" | "j = length pre" by force
      then show "(pre @ [x]) ! length pre \<le> (pre @ [x]) ! j"
      proof cases
        case 1
        with Cons.prems have "pre ! mi \<le> pre ! j" by (simp add: first_min_nth)
        with True 1 show ?thesis by (simp add: nth_append)
      next
        case 2
        then show ?thesis by simp
      qed
    next
      fix j assume j: "j < length pre"
      with Cons.prems have "pre ! mi \<le> pre ! j" by (simp add: first_min_nth)
      with True j show "(pre @ [x]) ! length pre < (pre @ [x]) ! j" by (simp add: nth_append)
    qed
    from Cons.IH [OF this] True show ?thesis by simp
  next
    case False
    have "first_min (pre @ [x]) mi"
      unfolding first_min_nth
    proof (intro conjI allI impI)
      show "mi < length (pre @ [x])" using mi by simp
    next
      fix j assume "j < length (pre @ [x])"
      then consider "j < length pre" | "j = length pre" by force
      then show "(pre @ [x]) ! mi \<le> (pre @ [x]) ! j"
      proof cases
        case 1
        with Cons.prems mi show ?thesis by (simp add: first_min_nth nth_append)
      next
        case 2
        with False mi show ?thesis by (simp add: nth_append)
      qed
    next
      fix j assume "j < mi"
      with Cons.prems mi show "(pre @ [x]) ! mi < (pre @ [x]) ! j"
        by (simp add: first_min_nth nth_append)
    qed
    from Cons.IH [OF this] False mi show ?thesis by (simp add: nth_append)
  qed
qed

lemma kmax_loop_first_max:
  "first_max pre mi \<Longrightarrow> first_max (pre @ xs) (kmax_loop xs (length pre) (pre ! mi) mi)"
proof (induction xs arbitrary: pre mi)
  case Nil
  then show ?case by simp
next
  case (Cons x xs)
  from Cons.prems have mi: "mi < length pre" by (simp add: first_max_nth)
  show ?case
  proof (cases "pre ! mi < x")
    case True
    have "first_max (pre @ [x]) (length pre)"
      unfolding first_max_nth
    proof (intro conjI allI impI)
      show "length pre < length (pre @ [x])" by simp
    next
      fix j assume "j < length (pre @ [x])"
      then consider "j < length pre" | "j = length pre" by force
      then show "(pre @ [x]) ! j \<le> (pre @ [x]) ! length pre"
      proof cases
        case 1
        with Cons.prems have "pre ! j \<le> pre ! mi" by (simp add: first_max_nth)
        with True 1 show ?thesis by (simp add: nth_append)
      next
        case 2
        then show ?thesis by simp
      qed
    next
      fix j assume j: "j < length pre"
      with Cons.prems have "pre ! j \<le> pre ! mi" by (simp add: first_max_nth)
      with True j show "(pre @ [x]) ! j < (pre @ [x]) ! length pre" by (simp add: nth_append)
    qed
    from Cons.IH [OF this] True show ?thesis by simp
  next
    case False
    have "first_max (pre @ [x]) mi"
      unfolding first_max_nth
    proof (intro conjI allI impI)
      show "mi < length (pre @ [x])" using mi by simp
    next
      fix j assume "j < length (pre @ [x])"
      then consider "j < length pre" | "j = length pre" by force
      then show "(pre @ [x]) ! j \<le> (pre @ [x]) ! mi"
      proof cases
        case 1
        with Cons.prems mi show ?thesis by (simp add: first_max_nth nth_append)
      next
        case 2
        with False mi show ?thesis by (simp add: nth_append)
      qed
    next
      fix j assume "j < mi"
      with Cons.prems mi show "(pre @ [x]) ! j < (pre @ [x]) ! mi"
        by (simp add: first_max_nth nth_append)
    qed
    from Cons.IH [OF this] False mi show ?thesis by (simp add: nth_append)
  qed
qed

lemma first_min_unique: "first_min xs i \<Longrightarrow> first_min xs j \<Longrightarrow> i = j"
  unfolding first_min_nth by (metis not_less_iff_gr_or_eq not_le)

lemma first_max_unique: "first_max xs i \<Longrightarrow> first_max xs j \<Longrightarrow> i = j"
  unfolding first_max_nth by (metis not_less_iff_gr_or_eq not_le)

lemma fkey_inj [simp]: "fkey a = fkey b \<longleftrightarrow> a = b"
  by (cases a; cases b) simp_all

lemma fnum_le_key: "\<not> is_nan a \<Longrightarrow> \<not> is_nan b \<Longrightarrow> fnum_le a b \<longleftrightarrow> fkey a \<le> fkey b"
  by (simp add: fnum_le_def)

lemma argmin_loop_keys:
  assumes "\<forall>v \<in> set xs. \<not> is_nan v" and "\<not> is_nan mp"
  shows "argmin_loop xs i mp mi = kmin_loop (map fkey xs) i (fkey mp) mi"
  using assms
proof (induction xs arbitrary: i mp mi)
  case Nil
  then show ?case by simp
next
  case (Cons x xs)
  then have x: "\<not> is_nan x" and rest: "\<forall>v \<in> set xs. \<not> is_nan v" by simp_all
  from x Cons.prems(2) have c: "\<not> fnum_le mp x \<longleftrightarrow> fkey x < fkey mp"
    by (simp add: fnum_le_key not_le)
  show ?case
  proof (cases "fkey x < fkey mp")
    case True
    with c x Cons.IH [OF rest x] show ?thesis by simp
  next
    case False
    with c Cons.IH [OF rest Cons.prems(2)] show ?thesis by simp
  qed
qed

lemma argmax_loop_keys:
  assumes "\<forall>v \<in> set xs. \<not> is_nan v" and "\<not> is_nan mp"
  shows "argmax_loop xs i mp mi = kmax_loop (map fkey xs) i (fkey mp) mi"
  using assms
proof (induction xs arbitrary: i mp mi)
  case Nil
  then show ?case by simp
next
  case (Cons x xs)
  then have x: "\<not> is_nan x" and rest: "\<forall>v \<in> set xs. \<not> is_nan v" by simp_all
  from x Cons.prems(2) have c: "\<not> fnum_le x mp \<longleftrightarrow> fkey mp < fkey x"
    by (simp add: fnum_le_key not_le)
  show ?case
  proof (cases "fkey mp < fkey x")
    case True
    with c x Cons.IH [OF rest x] show ?thesis by simp
  next
    case False
    with c Cons.IH [OF rest Cons.prems(2)] show ?thesis by simp
  qed
qed

lemma argmin_first_min:
  assumes "xs \<noteq> []" and "\<forall>v \<in> set xs. \<not> is_nan v"
  shows "\<exists>i. argmin xs = Inr i \<and> first_min (map fkey xs) i"
proof -
  from assms(1) obtain x rest where xs: "xs = x # rest" by (cases xs) auto
  with assms(2) have nn: "\<not> is_nan x" "\<forall>v \<in> set rest. \<not> is_nan v" by simp_all
  have "first_min [fkey x] 0" by (simp add: first_min_def)
  from kmin_loop_first_min [OF this, of "map fkey rest"]
  have "first_min (map fkey xs) (kmin_loop (map fkey rest) 1 (fkey x) 0)" by (simp add: xs)
  then show ?thesis using nn by (simp add: argmin_def xs argmin_loop_keys)
qed

lemma argmax_first_max:
  assumes "xs \<noteq> []" and "\<forall>v \<in> set xs. \<not> is_nan v"
  shows "\<exists>i. argmax xs = Inr i \<and> first_max (map fkey xs) i"
proof -
  from assms(1) obtain x rest where xs: "xs = x # rest" by (cases xs) auto
  with assms(2) have nn: "\<not> is_nan x" "\<forall>v \<in> set rest. \<not> is_nan v" by simp_all
  have "first_max [fkey x] 0" by (simp add: first_max_def)
  from kmax_loop_first_max [OF this, of "map fkey rest"]
  have "first_max (map fkey xs) (kmax_loop (map fkey rest) 1 (fkey x) 0)" by (simp add: xs)
  then show ?thesis using nn by (simp add: argmax_def xs argmax_loop_keys)
qed

lemma first_least_keys:
  assumes "\<forall>v \<in> set xs. \<not> is_nan v"
  shows "first_least xs i \<longleftrightarrow> first_min (map fkey xs) i"
proof (cases "i < length xs")
  case True
  then have i: "\<not> is_nan (xs ! i)" using assms by simp
  have a: "(\<forall>v \<in> set xs. fnum_le (xs ! i) v) \<longleftrightarrow> (\<forall>v \<in> set xs. fkey (xs ! i) \<le> fkey v)"
    using assms i by (simp add: fnum_le_key)
  have "\<forall>v \<in> set (take i xs). \<not> is_nan v" using assms by (meson in_set_takeD)
  then have b: "(\<forall>v \<in> set (take i xs). \<not> fnum_le v (xs ! i)) \<longleftrightarrow>
             (\<forall>v \<in> set (take i xs). fkey (xs ! i) < fkey v)"
    using i by (simp add: fnum_le_key not_le)
  from True a b show ?thesis by (simp add: first_least_def first_min_def take_map)
next
  case False
  then show ?thesis by (simp add: first_least_def first_min_def)
qed

lemma first_greatest_keys:
  assumes "\<forall>v \<in> set xs. \<not> is_nan v"
  shows "first_greatest xs i \<longleftrightarrow> first_max (map fkey xs) i"
proof (cases "i < length xs")
  case True
  then have i: "\<not> is_nan (xs ! i)" using assms by simp
  have a: "(\<forall>v \<in> set xs. fnum_le v (xs ! i)) \<longleftrightarrow> (\<forall>v \<in> set xs. fkey v \<le> fkey (xs ! i))"
    using assms i by (simp add: fnum_le_key)
  have "\<forall>v \<in> set (take i xs). \<not> is_nan v" using assms by (meson in_set_takeD)
  then have b: "(\<forall>v \<in> set (take i xs). \<not> fnum_le (xs ! i) v) \<longleftrightarrow>
             (\<forall>v \<in> set (take i xs). fkey v < fkey (xs ! i))"
    using i by (simp add: fnum_le_key not_le)
  from True a b show ?thesis by (simp add: first_greatest_def first_max_def take_map)
next
  case False
  then show ?thesis by (simp add: first_greatest_def first_max_def)
qed

text \<open>The corners after the conversion, and what \<open>order_points\<close> picks among them.\<close>

lemma order_points_indices:
  assumes "pts \<noteq> []" and "comparable pts"
  shows "\<exists>i0 i1 i2 i3.
           order_points pts =
             Inr [map point32 pts ! i0, map point32 pts ! i1,
                  map point32 pts ! i2, map point32 pts ! i3] \<and>
           first_least (map psum (map point32 pts)) i0 \<and>
           first_least (map pdiff (map point32 pts)) i1 \<and>
           first_greatest (map psum (map point32 pts)) i2 \<and>
           first_greatest (map pdiff (map point32 pts)) i3"
proof -
  let ?p = "map point32 pts"
  from assms(1) have ne: "map psum ?p \<noteq> []" "map pdiff ?p \<noteq> []" by simp_all
  from assms(2) have nn: "\<forall>v \<in> set (map psum ?p). \<not> is_nan v"
    "\<forall>v \<in> set (map pdiff ?p). \<not> is_nan v" by (simp_all add: comparable_def)
  from argmin_first_min [OF ne(1) nn(1)] obtain i0
    where i0: "argmin (map psum ?p) = Inr i0" "first_min (map fkey (map psum ?p)) i0" by blast
  from argmax_first_max [OF ne(1) nn(1)] obtain i2
    where i2: "argmax (map psum ?p) = Inr i2" "first_max (map fkey (map psum ?p)) i2" by blast
  from argmin_first_min [OF ne(2) nn(2)] obtain i1
    where i1: "argmin (map pdiff ?p) = Inr i1" "first_min (map fkey (map pdiff ?p)) i1" by blast
  from argmax_first_max [OF ne(2) nn(2)] obtain i3
    where i3: "argmax (map pdiff ?p) = Inr i3" "first_max (map fkey (map pdiff ?p)) i3" by blast
  have "order_points pts = Inr [?p ! i0, ?p ! i1, ?p ! i2, ?p ! i3]"
    using assms(1) i0(1) i1(1) i2(1) i3(1) by (simp add: order_points_def bind_err_def Let_def)
  moreover have "first_least (map psum ?p) i0" "first_least (map pdiff ?p) i1"
    "first_greatest (map psum ?p) i2" "first_greatest (map pdiff ?p) i3"
    using i0(2) i1(2) i2(2) i3(2) nn
    by (simp_all only: first_least_keys [OF nn(1)] first_least_keys [OF nn(2)]
        first_greatest_keys [OF nn(1)] first_greatest_keys [OF nn(2)])
  ultimately show ?thesis by blast
qed

lemma order_points_length: "order_points pts = Inr rect \<Longrightarrow> length rect = 4"
  by (auto simp: order_points_def bind_err_def Let_def split: if_splits sum.splits)

section \<open>Ordering four corners\<close>

lemma first_min4_0:
  fixes a0 :: "'a::linorder"
  assumes "a0 \<le> a1" "a0 \<le> a2" "a0 \<le> a3"
  shows "first_min [a0, a1, a2, a3] 0"
  using assms by (simp add: first_min_def)

lemma first_min4_1:
  fixes a0 :: "'a::linorder"
  assumes "a1 \<le> a0" "a1 \<le> a2" "a1 \<le> a3"
  shows "first_min [a0, a1, a2, a3] (if a0 = a1 then 0 else 1)"
  using assms by (auto simp: first_min_def)

lemma first_max4_2:
  fixes a0 :: "'a::linorder"
  assumes "a0 \<le> a2" "a1 \<le> a2" "a3 \<le> a2"
  shows "first_max [a0, a1, a2, a3] (if a0 = a2 then 0 else if a1 = a2 then 1 else 2)"
  using assms by (auto simp: first_max_def numeral_2_eq_2)

lemma first_max4_3:
  fixes a0 :: "'a::linorder"
  assumes "a0 \<le> a3" "a1 \<le> a3" "a2 \<le> a3"
  shows "first_max [a0, a1, a2, a3]
           (if a0 = a3 then 0 else if a1 = a3 then 1 else if a2 = a3 then 2 else 3)"
  using assms by (auto simp: first_max_def numeral_2_eq_2 numeral_3_eq_3)

lemma order_points_again:
  assumes rect: "rect = [tl_pt, tr_pt, br_pt, bl_pt]"
    and conv: "map point32 rect = rect"
    and nn: "comparable rect"
    and s: "fnum_le (psum tl_pt) (psum tr_pt)" "fnum_le (psum tl_pt) (psum br_pt)"
      "fnum_le (psum tl_pt) (psum bl_pt)" "fnum_le (psum tr_pt) (psum br_pt)"
      "fnum_le (psum bl_pt) (psum br_pt)"
    and d: "fnum_le (pdiff tr_pt) (pdiff tl_pt)" "fnum_le (pdiff tr_pt) (pdiff br_pt)"
      "fnum_le (pdiff tr_pt) (pdiff bl_pt)" "fnum_le (pdiff tl_pt) (pdiff bl_pt)"
      "fnum_le (pdiff br_pt) (pdiff bl_pt)"
  shows "order_points rect = Inr rect \<longleftrightarrow> keeps_roles rect"
proof -
  have ne: "rect \<noteq> []" by (simp add: rect)
  have nns: "\<forall>v \<in> set (map psum rect). \<not> is_nan v" 
    and nnd: "\<forall>v \<in> set (map pdiff rect). \<not> is_nan v"
    using nn conv by (simp_all add: comparable_def) (metis (no_types, lifting) imageE list.set_map)+
  from order_points_indices [OF ne nn] obtain k0 k1 k2 k3 where
    r: "order_points rect = Inr [rect ! k0, rect ! k1, rect ! k2, rect ! k3]" and
    k0: "first_least (map psum rect) k0" and k1: "first_least (map pdiff rect) k1" and
    k2: "first_greatest (map psum rect) k2" and k3: "first_greatest (map pdiff rect) k3"
    by (auto simp: conv)
  let ?S = "[fkey (psum tl_pt), fkey (psum tr_pt), fkey (psum br_pt), fkey (psum bl_pt)]"
  let ?D = "[fkey (pdiff tl_pt), fkey (pdiff tr_pt), fkey (pdiff br_pt), fkey (pdiff bl_pt)]"
  have S: "map fkey (map psum rect) = ?S" and D: "map fkey (map pdiff rect) = ?D"
    by (simp_all add: rect)
  have sk: "fkey (psum tl_pt) \<le> fkey (psum tr_pt)" "fkey (psum tl_pt) \<le> fkey (psum br_pt)"
    "fkey (psum tl_pt) \<le> fkey (psum bl_pt)" "fkey (psum tr_pt) \<le> fkey (psum br_pt)"
    "fkey (psum bl_pt) \<le> fkey (psum br_pt)"
    using s by (simp_all add: fnum_le_def)
  have dk: "fkey (pdiff tr_pt) \<le> fkey (pdiff tl_pt)" "fkey (pdiff tr_pt) \<le> fkey (pdiff br_pt)"
    "fkey (pdiff tr_pt) \<le> fkey (pdiff bl_pt)" "fkey (pdiff tl_pt) \<le> fkey (pdiff bl_pt)"
    "fkey (pdiff br_pt) \<le> fkey (pdiff bl_pt)"
    using d by (simp_all add: fnum_le_def)
  have "first_min ?S k0" using k0 by (simp only: first_least_keys [OF nns] S)
  from first_min_unique [OF this first_min4_0 [OF sk(1,2,3)]] have e0: "k0 = 0" .
  have "first_min ?D k1" using k1 by (simp only: first_least_keys [OF nnd] D)
  from first_min_unique [OF this first_min4_1 [OF dk(1,2,3)]]
  have e1: "k1 = (if pdiff tl_pt = pdiff tr_pt then 0 else 1)" by simp
  have "first_max ?S k2" using k2 by (simp only: first_greatest_keys [OF nns] S)
  from first_max_unique [OF this first_max4_2 [OF sk(2,4,5)]]
  have e2: "k2 = (if psum tl_pt = psum br_pt then 0 else if psum tr_pt = psum br_pt then 1 else 2)"
    by simp
  have "first_max ?D k3" using k3 by (simp only: first_greatest_keys [OF nnd] D)
  from first_max_unique [OF this first_max4_3 [OF dk(4,3,5)]]
  have e3: "k3 = (if pdiff tl_pt = pdiff bl_pt then 0
                  else if pdiff tr_pt = pdiff bl_pt then 1
                  else if pdiff br_pt = pdiff bl_pt then 2 else 3)"
    by simp
  show ?thesis
    unfolding r e0 e1 e2 e3 by (auto simp: rect keeps_roles_def)
qed

lemma psum_simp [simp]: "psum (Fin x, Fin y) = round32 (x + y)"
  by (simp add: psum_def)

lemma pdiff_simp [simp]: "pdiff (Fin x, Fin y) = round32 (y - x)"
  by (simp add: pdiff_def)

lemma point32_pt [simp]: "point32 (pt x y) = (round32 x, round32 y)"
  by (simp add: point32_def pt_def to_float32_def)

lemmas eval_order =
  order_points_def argmin_def argmax_def bind_err_def fnum_le_def is_nan_def Let_def

lemma comparable_scenario: "comparable [pt 50 40, pt 350 30, pt 360 270, pt 40 280]"
  by (simp add: comparable_def is_nan_def)

lemma order_points_scenario:
  "order_points [pt 50 40, pt 350 30, pt 360 270, pt 40 280] =
     Inr [pt 50 40, pt 350 30, pt 360 270, pt 40 280]"
  by (simp add: eval_order) (simp add: pt_def)

lemma round32_tie_coord [simp]: "round32 (10485761 / 2097152) = Fin (10485761 / 2097152)"
proof -
  have "round32 (10485761 / 2097152) = Fin (of_int 10485761 * 2 powi (2 - 23))"
    by (rule round32_eval) (simp_all add: power_int_minus)
  then show ?thesis by (simp add: power_int_minus)
qed

lemma round32_tie_sum [simp]: "round32 (20971521 / 2097152) = Fin 10"
proof -
  have "round32 (20971521 / 2097152) = Fin (of_int 10485760 * 2 powi (3 - 23))"
    by (rule round32_eval) (simp_all add: power_int_minus round_half_even_def)
  then show ?thesis by (simp add: power_int_minus)
qed

lemma round32_tie_diff [simp]: "round32 (1 / 2097152) = Fin (1 / 2097152)"
proof -
  have "round32 (1 / 2097152) = Fin (of_int 8388608 * 2 powi (- 21 - 23))"
    by (rule round32_eval) (simp_all add: power_int_minus)
  then show ?thesis by (simp add: power_int_minus)
qed

lemma order_points_rounded_tie:
  "order_points [pt 10 0, pt 5 (10485761 / 2097152), pt 0 0, pt 0 5] =
     Inr [pt 0 0, pt 10 0, pt 10 0, pt 0 5]"
  by (simp add: eval_order) (simp add: pt_def)

section \<open>Sizes of the results\<close>

lemma py_trunc_mono: "a \<le> b \<Longrightarrow> py_trunc a \<le> py_trunc b"
proof -
  assume ab: "a \<le> b"
  consider "0 \<le> a" | "a < 0" "0 \<le> b" | "b < 0" using ab by linarith
  then show ?thesis
  proof cases
    case 1
    with ab show ?thesis by (simp add: py_trunc_def floor_mono)
  next
    case 2
    then have "\<lceil>a\<rceil> \<le> 0" "0 \<le> \<lfloor>b\<rfloor>" by (simp_all add: ceiling_le_iff)
    then have "\<lceil>a\<rceil> \<le> \<lfloor>b\<rfloor>" by linarith
    with 2 show ?thesis by (simp add: py_trunc_def)
  next
    case 3
    with ab show ?thesis by (simp add: py_trunc_def ceiling_mono)
  qed
qed

lemma py_trunc_max: "py_trunc (max a b) = max (py_trunc a) (py_trunc b)"
proof (cases "a \<le> b")
  case True
  with py_trunc_mono [OF True] show ?thesis by (simp add: max_def)
next
  case False
  then have "b \<le> a" by simp
  from py_trunc_mono [OF this] False show ?thesis by (simp add: max_def)
qed

lemma grid_height: "img_height (map (\<lambda>y. map (g y) [0..<w]) [0..<h]) = h"
  by (simp add: img_height_def)

lemma grid_width: "0 < h \<Longrightarrow> img_width (map (\<lambda>y. map (g y) [0..<w]) [0..<h]) = w"
  by (simp add: img_width_def upt_conv_Cons)

lemma warpPerspective_size:
  assumes "img_height img \<noteq> 0" "img_width img \<noteq> 0" "0 < w" "0 < h"
  shows "\<exists>out. warpPerspective L img M (w, h) = Inr out \<and>
               int (img_width out) = w \<and> int (img_height out) = h"
proof -
  let ?out = "map (\<lambda>y. map (\<lambda>x. warp_sample L img M x y) [0..<nat w]) [0..<nat h]"
  from assms have "warpPerspective L img M (w, h) = Inr ?out"
    by (simp add: warpPerspective_def)
  moreover have "img_height ?out = nat h" by (rule grid_height)
  moreover from assms(4) have "img_width ?out = nat w" by (intro grid_width) simp
  ultimately show ?thesis using assms(3,4) by simp
qed

lemma warpPerspective_result:
  assumes "warpPerspective L img M (w, h) = Inr out" "0 < w" "0 < h"
  shows "int (img_width out) = w \<and> int (img_height out) = h"
proof -
  from assms(1) have ne: "img_height img \<noteq> 0" "img_width img \<noteq> 0"
    by (auto simp: warpPerspective_def split: if_splits)
  from warpPerspective_size [OF ne assms(2,3), of L M] assms(1) show ?thesis by auto
qed

text \<open>What \<open>four_point_transform\<close> does after the corners are ordered.\<close>

lemma four_point_transform_unfold:
  assumes "order_points pts = Inr [tl_pt, tr_pt, br_pt, bl_pt]"
  shows "four_point_transform L img pts =
     bind_err (py_int (euclidean br_pt bl_pt)) (\<lambda>intA.
     bind_err (py_int (euclidean tr_pt tl_pt)) (\<lambda>intB.
     bind_err (py_int (euclidean tr_pt br_pt)) (\<lambda>intC.
     bind_err (py_int (euclidean tl_pt bl_pt)) (\<lambda>intD.
       warpPerspective L img
         (getPerspectiveTransform L [tl_pt, tr_pt, br_pt, bl_pt]
            (map int_point32
               [(0, 0), (max (max intA intB) 100 - 1, 0),
                (max (max intA intB) 100 - 1, max (max intC intD) 100 - 1),
                (0, max (max intC intD) 100 - 1)]))
         (max (max intA intB) 100, max (max intC intD) 100)))))"
  by (simp add: four_point_transform_def assms bind_err_def Let_def euclidean_def
      split: sum.splits)

lemma four_point_transform_size:
  assumes rect: "order_points pts = Inr [tl_pt, tr_pt, br_pt, bl_pt]"
    and len: "euclidean br_pt bl_pt = Fin a" "euclidean tr_pt tl_pt = Fin b"
      "euclidean tr_pt br_pt = Fin c" "euclidean tl_pt bl_pt = Fin d"
    and img: "img_height img \<noteq> 0" "img_width img \<noteq> 0"
  shows "\<exists>out. four_point_transform L img pts = Inr out \<and>
               int (img_width out) = max 100 (py_trunc (max a b)) \<and>
               int (img_height out) = max 100 (py_trunc (max c d))"
proof -
  define W where "W = max (max (py_trunc a) (py_trunc b)) 100"
  define H where "H = max (max (py_trunc c) (py_trunc d)) 100"
  have pos: "0 < W" "0 < H" by (simp_all add: W_def H_def)
  obtain M where f: "four_point_transform L img pts = warpPerspective L img M (W, H)"
    by (simp add: four_point_transform_unfold [OF rect] len py_int_def bind_err_def W_def H_def)
  from warpPerspective_size [OF img pos, of L M] obtain out where
    out: "warpPerspective L img M (W, H) = Inr out" "int (img_width out) = W"
    "int (img_height out) = H" by blast
  have "W = max 100 (py_trunc (max a b))" "H = max 100 (py_trunc (max c d))"
    by (simp_all add: W_def H_def py_trunc_max max.commute)
  with f out show ?thesis by simp
qed

lemma four_point_transform_bound:
  assumes "four_point_transform L img pts = Inr out"
  shows "100 \<le> img_width out \<and> 100 \<le> img_height out"
proof (cases "order_points pts")
  case (Inl e)
  with assms show ?thesis by (simp add: four_point_transform_def bind_err_def)
next
  case (Inr rect)
  from order_points_length [OF Inr] obtain tl_pt tr_pt br_pt bl_pt
    where "rect = [tl_pt, tr_pt, br_pt, bl_pt]"
    by (auto simp: length_Suc_conv numeral_eq_Suc)
  with Inr have rect: "order_points pts = Inr [tl_pt, tr_pt, br_pt, bl_pt]" by simp
  from assms obtain M W H where
    w: "warpPerspective L img M (W, H) = Inr out" "100 \<le> W" "100 \<le> H"
    unfolding four_point_transform_unfold [OF rect]
    by (auto simp: bind_err_def split: sum.splits)
  from w(2,3) have "0 < W" "0 < H" by simp_all
  from warpPerspective_result [OF w(1) this] w(2,3) show ?thesis by linarith
qed

lemma is_fin_conv: "is_fin v \<longleftrightarrow> (\<exists>x. v = Fin x)"
  by (cases v) (simp_all add: is_fin_def)

text \<open>The float32 square root of a number, from bounds on the number.\<close>

lemma round32_sqrt_eval:
  assumes e: "- 126 \<le> e" "(2 powi e)\<^sup>2 \<le> X" "X < (2 powi (e + 1))\<^sup>2"
    and m: "1 \<le> m" "((of_int m - 1 / 2) * 2 powi (e - 23))\<^sup>2 < X"
      "X < ((of_int m + 1 / 2) * 2 powi (e - 23))\<^sup>2"
    and fin: "\<bar>of_int m * 2 powi (e - 23)\<bar> < (2::real) ^ 128"
  shows "round32 (sqrt X) = Fin (of_int m * 2 powi (e - 23))"
proof (rule round32_eval)
  have u: "(0::real) < 2 powi (e - 23)" by simp
  have X: "0 \<le> X" using e(2) by (meson order_trans zero_le_power2)
  have "2 powi e \<le> sqrt X" using e(2) by (rule real_le_rsqrt)
  then show "2 powi e \<le> \<bar>sqrt X\<bar>" by simp
  have "sqrt X < 2 powi (e + 1)" using e(3) by (intro real_less_lsqrt) simp_all
  then show "\<bar>sqrt X\<bar> < 2 powi (e + 1)" using X by simp
  show "- 126 \<le> e" by fact
  have lo: "(of_int m - 1 / 2) * 2 powi (e - 23) < sqrt X"
    using m(2) by (rule real_less_rsqrt)
  have "0 \<le> (real_of_int m + 1 / 2) * 2 powi (e - 23)" using m(1) by simp
  then have hi: "sqrt X < (of_int m + 1 / 2) * 2 powi (e - 23)"
    using m(3) by (intro real_less_lsqrt) simp_all
  from lo hi u have "of_int m - 1 / 2 < sqrt X / 2 powi (e - 23)"
    "sqrt X / 2 powi (e - 23) < of_int m + 1 / 2"
    by (simp_all add: field_simps)
  then show "round_half_even (sqrt X / 2 powi (e - 23)) = m" by (rule round_half_even_eqI)
  show "\<bar>of_int m * 2 powi (e - 23)\<bar> < (2::real) ^ 128" by fact
qed

lemma sqrt_scenario:
  "round32 (sqrt 102500) = Fin (10490879 / 32768)"
  "round32 (sqrt 90100) = Fin (9835860 / 32768)"
  "round32 (sqrt 57700) = Fin (15742287 / 65536)"
proof -
  have "round32 (sqrt 102500) = Fin (of_int 10490879 * 2 powi (8 - 23))"
    by (rule round32_sqrt_eval) (simp_all add: power_int_minus power2_eq_square)
  then show "round32 (sqrt 102500) = Fin (10490879 / 32768)" by (simp add: power_int_minus)
  have "round32 (sqrt 90100) = Fin (of_int 9835860 * 2 powi (8 - 23))"
    by (rule round32_sqrt_eval) (simp_all add: power_int_minus power2_eq_square)
  then show "round32 (sqrt 90100) = Fin (9835860 / 32768)" by (simp add: power_int_minus)
  have "round32 (sqrt 57700) = Fin (of_int 15742287 * 2 powi (7 - 23))"
    by (rule round32_sqrt_eval) (simp_all add: power_int_minus power2_eq_square)
  then show "round32 (sqrt 57700) = Fin (15742287 / 65536)" by (simp add: power_int_minus)
qed

lemma euclidean_pt [simp]:
  "euclidean (Fin x, Fin y) (Fin x', Fin y') =
     f32_sqrt (f32_add (f32_square (round32 (x - x'))) (f32_square (round32 (y - y'))))"
  by (simp add: euclidean_def)

lemma sides_scenario:
  "euclidean (pt 360 270) (pt 40 280) = Fin (10490879 / 32768)"
  "euclidean (pt 350 30) (pt 50 40) = Fin (9835860 / 32768)"
  "euclidean (pt 350 30) (pt 360 270) = Fin (15742287 / 65536)"
  "euclidean (pt 50 40) (pt 40 280) = Fin (15742287 / 65536)"
  by (simp_all add: pt_def sqrt_scenario)

lemma euclidean_rounds_up: "euclidean (pt 4232 92) (pt 0 0) = Fin 4233"
proof -
  have a: "round32 17909824 = Fin 17909824"
  proof -
    have "round32 17909824 = Fin (of_int 8954912 * 2 powi (24 - 23))"
      by (rule round32_eval) simp_all
    then show ?thesis by simp
  qed
  have b: "round32 17918288 = Fin 17918288"
  proof -
    have "round32 17918288 = Fin (of_int 8959144 * 2 powi (24 - 23))"
      by (rule round32_eval) simp_all
    then show ?thesis by simp
  qed
  have c: "round32 (sqrt 17918288) = Fin 4233"
  proof -
    have "round32 (sqrt 17918288) = Fin (of_int 8669184 * 2 powi (12 - 23))"
      by (rule round32_sqrt_eval) (simp_all add: power_int_minus power2_eq_square)
    then show ?thesis by (simp add: power_int_minus)
  qed
  show ?thesis by (simp add: pt_def a b c)
qed

lemma gray_image_size [simp]:
  "img_height (gray_image h w v) = h" "0 < h \<Longrightarrow> img_width (gray_image h w v) = w"
  by (auto simp: gray_image_def img_height_def img_width_def gr0_conv_Suc)




lemma const_grid: "map (\<lambda>y. map (\<lambda>x. c) [0..<w]) [0..<h] = replicate h (replicate w c)"
  by (simp add: map_replicate_const)

lemma scale_abs_zero_contrast: "scale_abs 0 (- 100) v = 100"
  by (simp add: scale_abs_def cvRound_def saturate_uchar_def)

lemma order_points_same:
  assumes "to_float32 (fst p) = Fin x" and "to_float32 (snd p) = Fin y"
  shows "order_points [p, p, p, p] = Inr [(Fin x, Fin y), (Fin x, Fin y), (Fin x, Fin y), (Fin x, Fin y)]"
  using assms by (simp add: eval_order point32_def)

section \<open>Claims about the corner ordering\<close>



text \<open>
  Claim C10. Ties are resolved by first occurrence: each role goes to the first index, in
  the order of the input, at which the extreme of its metric is reached, so every earlier
  corner is strictly worse on that metric. The metrics are the \<open>float32\<close> sums and
  differences, so corners whose exact sums differ by less than the rounding tie as well.
  The result is a function of the input list.
\<close>

theorem order_points_first_occurrence:
  assumes "length pts = 4" and "comparable pts"
  shows "\<exists>i0 i1 i2 i3.
           order_points pts =
             Inr [map point32 pts ! i0, map point32 pts ! i1,
                  map point32 pts ! i2, map point32 pts ! i3] \<and>
           first_least (map psum (map point32 pts)) i0 \<and>
           first_least (map pdiff (map point32 pts)) i1 \<and>
           first_greatest (map psum (map point32 pts)) i2 \<and>
           first_greatest (map pdiff (map point32 pts)) i3"
proof -
  from assms(1) have "pts \<noteq> []" by auto
  then show ?thesis using assms(2) by (rule order_points_indices)
qed

theorem order_points_first_occurrence_witness:
  "(\<exists>i0 i1 i2 i3.
      order_points [pt 10 0, pt 5 (10485761 / 2097152), pt 0 0, pt 0 5] =
        Inr [map point32 [pt 10 0, pt 5 (10485761 / 2097152), pt 0 0, pt 0 5] ! i0,
             map point32 [pt 10 0, pt 5 (10485761 / 2097152), pt 0 0, pt 0 5] ! i1,
             map point32 [pt 10 0, pt 5 (10485761 / 2097152), pt 0 0, pt 0 5] ! i2,
             map point32 [pt 10 0, pt 5 (10485761 / 2097152), pt 0 0, pt 0 5] ! i3] \<and>
      first_least
        (map psum (map point32 [pt 10 0, pt 5 (10485761 / 2097152), pt 0 0, pt 0 5])) i0 \<and>
      first_least
        (map pdiff (map point32 [pt 10 0, pt 5 (10485761 / 2097152), pt 0 0, pt 0 5])) i1 \<and>
      first_greatest
        (map psum (map point32 [pt 10 0, pt 5 (10485761 / 2097152), pt 0 0, pt 0 5])) i2 \<and>
      first_greatest
        (map pdiff (map point32 [pt 10 0, pt 5 (10485761 / 2097152), pt 0 0, pt 0 5])) i3) \<and>
   order_points [pt 10 0, pt 5 (10485761 / 2097152), pt 0 0, pt 0 5] =
     Inr [pt 0 0, pt 10 0, pt 10 0, pt 0 5]"
proof -
  have "length [pt 10 0, pt 5 (10485761 / 2097152), pt 0 0, pt 0 5] = 4" by simp
  moreover have "comparable [pt 10 0, pt 5 (10485761 / 2097152), pt 0 0, pt 0 5]"
    by (simp add: comparable_def is_nan_def)
  ultimately show ?thesis
    using order_points_first_occurrence order_points_rounded_tie by blast
qed

text \<open>
  Claim C4, as stated, fails: the four corners \<open>(5,5), (10,0), (0,0), (0,5)\<close> of a convex
  quadrilateral are pairwise different, \<open>(5,5)\<close> and \<open>(10,0)\<close> tie on the greatest \<open>x + y\<close>, and
  ordering the ordered corners once more replaces the bottom-right \<open>(5,5)\<close> by \<open>(10,0)\<close>.
\<close>

theorem order_points_not_idempotent:
  "distinct [pt 5 5, pt 10 0, pt 0 0, pt 0 5] \<and>
   order_points [pt 5 5, pt 10 0, pt 0 0, pt 0 5] = Inr [pt 0 0, pt 10 0, pt 5 5, pt 0 5] \<and>
   order_points [pt 0 0, pt 10 0, pt 5 5, pt 0 5] = Inr [pt 0 0, pt 10 0, pt 10 0, pt 0 5] \<and>
   bind_err (order_points [pt 5 5, pt 10 0, pt 0 0, pt 0 5]) order_points
     \<noteq> order_points [pt 5 5, pt 10 0, pt 0 0, pt 0 5]"
proof -
  have a: "order_points [pt 5 5, pt 10 0, pt 0 0, pt 0 5] = Inr [pt 0 0, pt 10 0, pt 5 5, pt 0 5]"
    by (simp add: eval_order) (simp add: pt_def)
  have b: "order_points [pt 0 0, pt 10 0, pt 5 5, pt 0 5] = Inr [pt 0 0, pt 10 0, pt 10 0, pt 0 5]"
    by (simp add: eval_order) (simp add: pt_def)
  have c: "distinct [pt 5 5, pt 10 0, pt 0 0, pt 0 5]" by (simp add: pt_def)
  from a b c show ?thesis by (simp add: bind_err_def pt_def)
qed

text \<open>
  Claim C4, amended. For four corners whose sums and differences are not NaN, ordering
  the ordered corners \<open>[TL, TR, BR, BL]\<close> once more returns them unchanged exactly when no
  role is taken over by a different corner that stands earlier in that list and reaches
  the role's extreme too (\<open>keeps_roles\<close>). Ties at the least \<open>x + y\<close> never matter.
\<close>

theorem order_points_idempotent:
  assumes "length pts = 4" and "comparable pts"
  shows "\<exists>rect. order_points pts = Inr rect \<and>
                (order_points rect = Inr rect \<longleftrightarrow> keeps_roles rect)"
proof -
  let ?p = "map point32 pts"
  from assms(1) have "pts \<noteq> []" by auto
  from order_points_indices [OF this assms(2)] obtain i0 i1 i2 i3 where
    r: "order_points pts = Inr [?p ! i0, ?p ! i1, ?p ! i2, ?p ! i3]" and
    i0: "first_least (map psum ?p) i0" and i1: "first_least (map pdiff ?p) i1" and
    i2: "first_greatest (map psum ?p) i2" and i3: "first_greatest (map pdiff ?p) i3" by blast
  define rect where "rect = [?p ! i0, ?p ! i1, ?p ! i2, ?p ! i3]"
  have len: "i0 < length pts" "i1 < length pts" "i2 < length pts" "i3 < length pts"
    using i0 i1 i2 i3 by (simp_all add: first_least_def first_greatest_def)
  then have mem: "?p ! i0 \<in> set ?p" "?p ! i1 \<in> set ?p" "?p ! i2 \<in> set ?p" "?p ! i3 \<in> set ?p"
    by simp_all
  have conv: "map point32 rect = rect" using len by (simp add: rect_def)
  have nn: "comparable rect"
    using assms(2) len unfolding comparable_def rect_def by simp
  have s: "\<forall>p \<in> set ?p. fnum_le (psum (?p ! i0)) (psum p)"
    "\<forall>p \<in> set ?p. fnum_le (psum p) (psum (?p ! i2))"
    using i0 i2 by (auto simp: first_least_def first_greatest_def)
  have d: "\<forall>p \<in> set ?p. fnum_le (pdiff (?p ! i1)) (pdiff p)"
    "\<forall>p \<in> set ?p. fnum_le (pdiff p) (pdiff (?p ! i3))"
    using i1 i3 by (auto simp: first_least_def first_greatest_def)
  have "order_points rect = Inr rect \<longleftrightarrow> keeps_roles rect"
    using rect_def conv nn
  proof (rule order_points_again)
    show "fnum_le (psum (?p ! i0)) (psum (?p ! i1))" using s(1) mem(2) by blast
    show "fnum_le (psum (?p ! i0)) (psum (?p ! i2))" using s(1) mem(3) by blast
    show "fnum_le (psum (?p ! i0)) (psum (?p ! i3))" using s(1) mem(4) by blast
    show "fnum_le (psum (?p ! i1)) (psum (?p ! i2))" using s(2) mem(2) by blast
    show "fnum_le (psum (?p ! i3)) (psum (?p ! i2))" using s(2) mem(4) by blast
    show "fnum_le (pdiff (?p ! i1)) (pdiff (?p ! i0))" using d(1) mem(1) by blast
    show "fnum_le (pdiff (?p ! i1)) (pdiff (?p ! i2))" using d(1) mem(3) by blast
    show "fnum_le (pdiff (?p ! i1)) (pdiff (?p ! i3))" using d(1) mem(4) by blast
    show "fnum_le (pdiff (?p ! i0)) (pdiff (?p ! i3))" using d(2) mem(1) by blast
    show "fnum_le (pdiff (?p ! i2)) (pdiff (?p ! i3))" using d(2) mem(3) by blast
  qed
  with r show ?thesis by (auto simp: rect_def)
qed

theorem order_points_idempotent_witness:
  "order_points [pt 50 40, pt 350 30, pt 360 270, pt 40 280] =
     Inr [pt 50 40, pt 350 30, pt 360 270, pt 40 280] \<and>
   bind_err (order_points [pt 50 40, pt 350 30, pt 360 270, pt 40 280]) order_points =
     order_points [pt 50 40, pt 350 30, pt 360 270, pt 40 280]"
proof -
  let ?q = "[pt 50 40, pt 350 30, pt 360 270, pt 40 280]"
  have "length ?q = 4" by simp
  from order_points_idempotent [OF this comparable_scenario] obtain rect where
    r: "order_points ?q = Inr rect" "order_points rect = Inr rect \<longleftrightarrow> keeps_roles rect"
    by blast
  from r(1) have rect: "rect = ?q" by (simp add: order_points_scenario)
  have "keeps_roles ?q" by (simp add: keeps_roles_def pt_def)
  with r(2) rect have "order_points ?q = Inr ?q" by simp
  then show ?thesis by (simp add: bind_err_def)
qed

section \<open>Claims about the rectification\<close>

text \<open>
  Claim C1. For a list of four corners, every image \<open>four_point_transform\<close> returns is at
  least 100 pixels wide and 100 pixels high; and it returns an image whenever the source
  image has pixels and the four side lengths are finite. (On a source without pixels the
  library call raises, which the specification lists as an error of \<open>rectify\<close>; on an
  infinite or NaN side length \<open>int()\<close> raises.)
\<close>

theorem four_point_transform_min_size:
  assumes "length pts = 4"
  shows "(img_height img \<noteq> 0 \<and> img_width img \<noteq> 0 \<and>
            (\<exists>rect. order_points pts = Inr rect \<and> sides_finite rect) \<longrightarrow>
            (\<exists>out. four_point_transform L img pts = Inr out)) \<and>
         (\<forall>out. four_point_transform L img pts = Inr out \<longrightarrow>
            100 \<le> img_width out \<and> 100 \<le> img_height out)"
proof (rule conjI)
  show "img_height img \<noteq> 0 \<and> img_width img \<noteq> 0 \<and>
          (\<exists>rect. order_points pts = Inr rect \<and> sides_finite rect) \<longrightarrow>
          (\<exists>out. four_point_transform L img pts = Inr out)"
  proof
    assume a: "img_height img \<noteq> 0 \<and> img_width img \<noteq> 0 \<and>
      (\<exists>rect. order_points pts = Inr rect \<and> sides_finite rect)"
    then obtain rect where rect: "order_points pts = Inr rect" "sides_finite rect" by blast
    from order_points_length [OF rect(1)] obtain tl_pt tr_pt br_pt bl_pt
      where r: "rect = [tl_pt, tr_pt, br_pt, bl_pt]"
      by (auto simp: length_Suc_conv numeral_eq_Suc)
    with rect(2) obtain a' b c d where
      "euclidean br_pt bl_pt = Fin a'" "euclidean tr_pt tl_pt = Fin b"
      "euclidean tr_pt br_pt = Fin c" "euclidean tl_pt bl_pt = Fin d"
      by (auto simp: sides_finite_def is_fin_conv)
    from four_point_transform_size [OF rect(1) [unfolded r] this, of img L] a
    show "\<exists>out. four_point_transform L img pts = Inr out" by blast
  qed
  show "\<forall>out. four_point_transform L img pts = Inr out \<longrightarrow>
          100 \<le> img_width out \<and> 100 \<le> img_height out"
    using four_point_transform_bound by blast
qed

theorem four_point_transform_min_size_witness:
  "\<exists>out. four_point_transform cv2_black (gray_image 300 400 0)
            [pt 50 40, pt 350 30, pt 360 270, pt 40 280] = Inr out \<and>
         100 \<le> img_width out \<and> 100 \<le> img_height out"
proof -
  let ?q = "[pt 50 40, pt 350 30, pt 360 270, pt 40 280]"
  have "length ?q = 4" by simp
  moreover have "sides_finite ?q" by (simp add: sides_finite_def sides_scenario is_fin_def)
  ultimately show ?thesis
    using four_point_transform_min_size [of ?q "gray_image 300 400 0" cv2_black]
      order_points_scenario by auto
qed



text \<open>
  Claim C9. A quad whose four points are one and the same point, with coordinates in the
  range of \<open>float32\<close>, is rectified, on every image that has pixels, to an image of exactly
  100 by 100 pixels.
\<close>

theorem four_point_transform_degenerate:
  assumes "img_height img \<noteq> 0" and "img_width img \<noteq> 0"
    and "is_fin (to_float32 (fst p))" and "is_fin (to_float32 (snd p))"
  shows "\<exists>out. four_point_transform L img [p, p, p, p] = Inr out \<and>
               img_width out = 100 \<and> img_height out = 100"
proof -
  from assms(3,4) obtain x y where xy: "to_float32 (fst p) = Fin x" "to_float32 (snd p) = Fin y"
    by (auto simp: is_fin_conv)
  have z: "euclidean (Fin x, Fin y) (Fin x, Fin y) = Fin 0" by simp
  from four_point_transform_size [OF order_points_same [OF xy] z z z z assms(1,2), of L]
  obtain out where "four_point_transform L img [p, p, p, p] = Inr out"
    "int (img_width out) = max 100 (py_trunc (max 0 0))"
    "int (img_height out) = max 100 (py_trunc (max 0 0))" by blast
  then show ?thesis by (simp add: py_trunc_def)
qed

theorem four_point_transform_degenerate_witness:
  "\<exists>out. four_point_transform cv2_black (gray_image 300 400 0)
            [pt 7 9, pt 7 9, pt 7 9, pt 7 9] = Inr out \<and>
         img_width out = 100 \<and> img_height out = 100"
proof -
  have "img_height (gray_image 300 400 0) \<noteq> 0" "img_width (gray_image 300 400 0) \<noteq> 0"
    by simp_all
  moreover have "is_fin (to_float32 (fst (pt 7 9)))" "is_fin (to_float32 (snd (pt 7 9)))"
    by (simp_all add: pt_def to_float32_def is_fin_def)
  ultimately show ?thesis by (rule four_point_transform_degenerate)
qed

text \<open>
  Claim C7, as stated, fails: \<open>four_point_transform\<close> accepts a list of three corners. It
  picks its four extreme points among them and returns an image of 250 by 150 pixels (the
  pixel values here are those of the instance \<open>cv2_black\<close>).
\<close>

theorem four_point_transform_three_points:
  "length [pt 0 0, pt 200 0, pt 0 150] \<noteq> 4 \<and>
   four_point_transform cv2_black (gray_image 300 400 0) [pt 0 0, pt 200 0, pt 0 150] =
     Inr (gray_image 150 250 0)"
proof -
  have o: "order_points [pt 0 0, pt 200 0, pt 0 150] = Inr [pt 0 0, pt 200 0, pt 200 0, pt 0 150]"
    by (simp add: eval_order) (simp add: pt_def)
  have "four_point_transform cv2_black (gray_image 300 400 0) [pt 0 0, pt 200 0, pt 0 150] =
     Inr (gray_image 150 250 0)"
    unfolding four_point_transform_unfold [OF o]
    by (simp add: pt_def py_int_def py_trunc_def bind_err_def warpPerspective_def
        cv2_black_def const_grid)
       (simp add: gray_image_def)
  then show ?thesis by simp
qed

text \<open>
  Claim C7, amended. The rule of exactly four corners is enforced by the caller:
  \<open>scan_document\<close> answers 400 to every request whose list of corners does not have
  exactly four points, before the scanner is called. \<open>four_point_transform\<close> itself does
  not check the number of corners; of the lists of another length it refuses the empty
  one (AxisError).
\<close>

theorem corner_count_checked_by_caller:
  "four_point_transform L img [] = Inl AxisError \<and>
   (length (req_corners data) \<noteq> 4 \<longrightarrow>
      scan_document L imread (Some data) = Http400 ''Missing filename or corners'' \<or>
      scan_document L imread (Some data) = Http400 ''Exactly 4 corners required'')"
proof (rule conjI)
  show "four_point_transform L img [] = Inl AxisError"
    by (simp add: four_point_transform_def order_points_def bind_err_def)
  show "length (req_corners data) \<noteq> 4 \<longrightarrow>
      scan_document L imread (Some data) = Http400 ''Missing filename or corners'' \<or>
      scan_document L imread (Some data) = Http400 ''Exactly 4 corners required''"
    by (simp add: scan_document_def)
qed

theorem corner_count_checked_by_caller_witness:
  "four_point_transform cv2_black (gray_image 300 400 0) [] = Inl AxisError \<and>
   scan_document cv2_black (\<lambda>name. Some (gray_image 300 400 0))
     (Some \<lparr>req_filename = ''page.jpg'', req_corners = [pt 0 0, pt 200 0, pt 0 150],
            req_enhance = True, req_addBorder = True\<rparr>) = Http400 ''Exactly 4 corners required''"
proof -
  let ?d = "\<lparr>req_filename = ''page.jpg'', req_corners = [pt 0 0, pt 200 0, pt 0 150],
            req_enhance = True, req_addBorder = True\<rparr>"
  from corner_count_checked_by_caller
    [of cv2_black "gray_image 300 400 0" ?d "\<lambda>name. Some (gray_image 300 400 0)"]
  have "four_point_transform cv2_black (gray_image 300 400 0) [] = Inl AxisError"
    and "scan_document cv2_black (\<lambda>name. Some (gray_image 300 400 0)) (Some ?d)
           = Http400 ''Missing filename or corners'' \<or>
         scan_document cv2_black (\<lambda>name. Some (gray_image 300 400 0)) (Some ?d)
           = Http400 ''Exactly 4 corners required''"
    by simp_all
  moreover have "scan_document cv2_black (\<lambda>name. Some (gray_image 300 400 0)) (Some ?d)
           \<noteq> Http400 ''Missing filename or corners''"
    by (simp add: scan_document_def)
  ultimately show ?thesis by simp
qed

section \<open>Claims about the pipeline, the border and the enhancement\<close>

text \<open>
  Claim C8. With \<open>enhance = False\<close> and \<open>add_border = False\<close> the pipeline returns exactly
  what \<open>four_point_transform\<close> returns for the same image and corners, errors included.
\<close>

theorem scan_without_stages:
  "process_document_from_array L img pts False False = four_point_transform L img pts"
  by (simp add: process_document_from_array_def bind_err_def split: sum.splits)

theorem scan_without_stages_witness:
  "process_document_from_array cv2_black (gray_image 300 400 0)
     [pt 50 40, pt 350 30, pt 360 270, pt 40 280] False False =
   four_point_transform cv2_black (gray_image 300 400 0)
     [pt 50 40, pt 350 30, pt 360 270, pt 40 280]"
  by (rule scan_without_stages)

text \<open>
  Claim C6. For every image and every negative padding, \<open>add_white_border\<close> fails: the
  padding goes unchecked to \<open>cv2.copyMakeBorder\<close>, whose assertion on the border widths
  raises \<open>cv2.error\<close>.
\<close>

theorem add_white_border_negative:
  assumes "padding < 0"
  shows "add_white_border img padding = Inl CvError"
  using assms by (simp add: add_white_border_def copyMakeBorder_def)

theorem add_white_border_negative_witness:
  "add_white_border (gray_image 2 3 0) (- 1) = Inl CvError"
proof -
  have "(- 1 :: int) < 0" by simp
  then show ?thesis by (rule add_white_border_negative)
qed

text \<open>
  Claim C5 does not hold of the code: \<open>cv2.convertScaleAbs\<close> takes the absolute value of
  \<open>alpha * v + beta\<close> where the claim cuts a negative value off at 0. With brightness
  \<open>-100\<close> and contrast \<open>-100\<close> (so \<open>alpha = 0\<close> and \<open>beta = -100\<close>) every channel of every
  pixel becomes 100, where \<open>clamp(alpha * v + beta, 0, 255)\<close> is 0.
\<close>

theorem enhance_darkest_setting:
  assumes "img_height img \<noteq> 0" and "img_width img \<noteq> 0"
  shows "enhance_document L img (- 100) (- 100) =
           Inr (gray_image (img_height img) (img_width img) 100) \<and>
         affine_clamp (1 + real_of_int (- 100) / 100) (real_of_int (- 100)) v = 0"
proof -
  let ?mid = "map (\<lambda>y. map (\<lambda>x. clahe_sample L img x y) [0..<img_width img]) [0..<img_height img]"
  from assms have "clahe_stage L img = Inr ?mid" by (simp add: clahe_stage_def)
  then have "enhance_document L img (- 100) (- 100) = Inr (convertScaleAbs ?mid 0 (- 100))"
    by (simp add: enhance_document_def bind_err_def)
  moreover have "convertScaleAbs ?mid 0 (- 100) = gray_image (img_height img) (img_width img) 100"
    by (simp add: convertScaleAbs_def map_channels_def scale_abs_zero_contrast comp_def
        split_def const_grid gray_image_def)
  moreover have "affine_clamp (1 + real_of_int (- 100) / 100) (real_of_int (- 100)) v = 0"
    by (simp add: affine_clamp_def)
  ultimately show ?thesis by simp
qed

theorem enhance_darkest_setting_witness:
  "enhance_document cv2_black (gray_image 2 3 10) (- 100) (- 100) = Inr (gray_image 2 3 100) \<and>
   affine_clamp (1 + real_of_int (- 100) / 100) (real_of_int (- 100)) 10 = 0"
proof -
  have "img_height (gray_image 2 3 10) \<noteq> 0" "img_width (gray_image 2 3 10) \<noteq> 0" by simp_all
  from enhance_darkest_setting [OF this, of cv2_black 10] show ?thesis by simp
qed

end
